theory Spec2Isabelle
  imports Main "HOL-Library.Word" "HOL-Library.Sublist" "HOL-Library.AList"
begin

section \<open>rust\_project\_to\_kzip: the data model\<close>

text \<open>
  The program reads a rust-project.json manifest, computes for every crate the crates it
  depends on transitively, gathers the source directories of a crate and of its
  dependencies, walks them for \<open>.rs\<close> files and writes one compilation unit per crate
  into a kzip archive. Go strings are byte sequences, here \<open>string\<close>; \<open>uint32\<close> is a
  32-bit word.
\<close>

type_synonym uint32 = "32 word"

text \<open>
  \<open>Source\<close>. A Go slice can be \<open>nil\<close> or empty; the program tells the two apart only for
  \<open>IncludeDirs\<close> (the test \<open>IncludeDirs != nil\<close> of \<open>getSourceDirs\<close>), so that field is
  an option with \<open>None\<close> for \<open>nil\<close>. \<open>ExcludeDirs\<close> is only ever appended and ranged
  over, where \<open>nil\<close> and the empty slice behave alike.
\<close>

record Source =
  IncludeDirs :: "string list option"
  ExcludeDirs :: "string list"

record Dep =
  dep_CrateId :: uint32
  dep_Name :: string

record Crate =
  RootModule :: string
  Edition :: string
  Deps :: "Dep list"
  Cfg :: "string list"
  Files :: "string list"
  CompilerArgs :: "string list"
  CrateId :: uint32
  Label :: string
  Target :: string
  Source :: Source

record RustProject =
  Crates :: "Crate list"

text \<open>Ranging over a slice that may be \<open>nil\<close>, or appending it: \<open>nil\<close> has no elements.\<close>

definition elems :: "'a list option \<Rightarrow> 'a list" where
  "elems s = (case s of None \<Rightarrow> [] | Some xs \<Rightarrow> xs)"

section \<open>Path normalisation\<close>

text \<open>
  \<open>removeProjectRoot\<close>: \<open>path[:len(projectRoot)]\<close> is taken only when
  \<open>len(path) >= len(projectRoot)\<close>, so the slice expressions never go out of range.
\<close>

definition removeProjectRoot :: "string \<Rightarrow> string \<Rightarrow> string" where
  "removeProjectRoot path projectRoot =
     (if length path \<ge> length projectRoot \<and> take (length projectRoot) path = projectRoot
      then drop (length projectRoot) path
      else path)"

section \<open>Transitive dependencies\<close>

text \<open>
  Go maps. The adjacency map \<open>crate_deps\<close> is only read: it is a partial function, and
  indexing it at a missing key gives the \<open>nil\<close> slice (\<open>elems\<close> of \<open>None\<close>). The map
  \<open>visited\<close> is also ranged over, so it is an association list, with \<open>map_of\<close> for the
  lookup \<open>_, ok := visited[dep]\<close> and \<open>AList.update\<close> for the store. Go leaves the order
  of \<open>range\<close> over a map unspecified: \<open>range_order\<close> stands for it, taking the keys of the
  map to the sequence in which the loop meets them.
\<close>

type_synonym visited_map = "(uint32 \<times> bool) list"

definition is_range_order :: "(uint32 list \<Rightarrow> uint32 list) \<Rightarrow> bool" where
  "is_range_order range_order \<longleftrightarrow> (\<forall>ks. set (range_order ks) = set ks)"

text \<open>The inner loop \<open>for _, dep := range crate_deps[currentCrateId]\<close>.\<close>

fun visit_deps :: "uint32 list \<Rightarrow> uint32 list \<times> visited_map \<Rightarrow> uint32 list \<times> visited_map" where
  "visit_deps [] (queue, visited) = (queue, visited)"
| "visit_deps (dep # deps) (queue, visited) =
     (if map_of visited dep = None
      then visit_deps deps (queue @ [dep], AList.update dep True visited)
      else visit_deps deps (queue, visited))"

text \<open>
  The loop \<open>for len(queue) > 0\<close>. Nothing in its text bounds the number of rounds, so it is
  a partial function: \<open>None\<close> stands for a loop that never ends.
\<close>

partial_function (option) bfs_loop ::
  "(uint32 \<rightharpoonup> uint32 list) \<Rightarrow> uint32 list \<Rightarrow> visited_map \<Rightarrow> visited_map option" where
  "bfs_loop crate_deps queue visited =
     (case queue of
        [] \<Rightarrow> Some visited
      | currentCrateId # rest \<Rightarrow>
          (case visit_deps (elems (crate_deps currentCrateId)) (rest, visited) of
             (queue', visited') \<Rightarrow> bfs_loop crate_deps queue' visited'))"

definition getTransitiveDependencies ::
  "(uint32 list \<Rightarrow> uint32 list) \<Rightarrow> Crate \<Rightarrow> (uint32 \<rightharpoonup> uint32 list) \<Rightarrow> uint32 list option" where
  "getTransitiveDependencies range_order crate crate_deps =
     (case bfs_loop crate_deps [CrateId crate] [(CrateId crate, True)] of
        None \<Rightarrow> None
      | Some visited \<Rightarrow>
          Some (filter (\<lambda>k. k \<noteq> CrateId crate) (range_order (map fst visited))))"

declare bfs_loop.simps [code]

text \<open>
  The two loops of \<open>main\<close> that fill \<open>crate_deps\<close> and \<open>transitiveDeps\<close>. The second
  one calls \<open>getTransitiveDependencies\<close> and so inherits its \<open>None\<close>.
\<close>

definition add_dep :: "Crate \<Rightarrow> (uint32 \<rightharpoonup> uint32 list) \<Rightarrow> Dep \<Rightarrow> (uint32 \<rightharpoonup> uint32 list)" where
  "add_dep crate crate_deps dep =
     crate_deps(CrateId crate \<mapsto> elems (crate_deps (CrateId crate)) @ [dep_CrateId dep])"

definition build_crate_deps :: "Crate list \<Rightarrow> (uint32 \<rightharpoonup> uint32 list)" where
  "build_crate_deps crates =
     foldl (\<lambda>crate_deps crate. foldl (add_dep crate) crate_deps (Deps crate)) Map.empty crates"

fun build_transitive_deps ::
  "(uint32 list \<Rightarrow> uint32 list) \<Rightarrow> Crate list \<Rightarrow> (uint32 \<rightharpoonup> uint32 list) \<Rightarrow>
     (uint32 \<rightharpoonup> uint32 list) \<Rightarrow> (uint32 \<rightharpoonup> uint32 list) option" where
  "build_transitive_deps range_order [] crate_deps transitiveDeps = Some transitiveDeps"
| "build_transitive_deps range_order (crate # rest) crate_deps transitiveDeps =
     (case getTransitiveDependencies range_order crate crate_deps of
        None \<Rightarrow> None
      | Some transitiveDepsForCrate \<Rightarrow>
          build_transitive_deps range_order rest crate_deps
            (transitiveDeps(CrateId crate \<mapsto> transitiveDepsForCrate)))"

section \<open>Source directories of a crate and of its dependencies\<close>

text \<open>
  A run-time panic is a value. \<open>IndexOutOfRange i n\<close> is Go's
  \<open>index out of range [i] with length n\<close>.
\<close>

datatype panic = IndexOutOfRange int nat

type_synonym dirs_map = "uint32 \<rightharpoonup> string list"

text \<open>
  The inner loop of \<open>getSourceDirs\<close>. \<open>crates[dep]\<close> indexes the slice of crates with the
  dependency's id and panics when the id is not below \<open>len(crates)\<close>.
\<close>

fun add_dep_dirs ::
  "Crate list \<Rightarrow> Crate \<Rightarrow> uint32 list \<Rightarrow> dirs_map \<times> dirs_map \<Rightarrow> panic + dirs_map \<times> dirs_map" where
  "add_dep_dirs crates crate [] (source_include_dirs, source_exclude_dirs) =
     Inr (source_include_dirs, source_exclude_dirs)"
| "add_dep_dirs crates crate (dep # deps) (source_include_dirs, source_exclude_dirs) =
     (if unat dep \<ge> length crates then Inl (IndexOutOfRange (uint dep) (length crates))
      else if IncludeDirs (Source (crates ! unat dep)) \<noteq> None
      then add_dep_dirs crates crate deps
             (source_include_dirs(CrateId crate \<mapsto>
                elems (source_include_dirs (CrateId crate))
                  @ elems (IncludeDirs (Source (crates ! unat dep)))),
              source_exclude_dirs(CrateId crate \<mapsto>
                elems (source_exclude_dirs (CrateId crate))
                  @ ExcludeDirs (Source (crates ! unat dep))))
      else add_dep_dirs crates crate deps (source_include_dirs, source_exclude_dirs))"

text \<open>The outer loop \<open>for _, crate := range crates\<close>, over the crates still to come.\<close>

fun source_dirs_loop ::
  "Crate list \<Rightarrow> Crate list \<Rightarrow> (uint32 \<rightharpoonup> uint32 list) \<Rightarrow> dirs_map \<times> dirs_map \<Rightarrow>
     panic + dirs_map \<times> dirs_map" where
  "source_dirs_loop crates [] transitiveDeps (source_include_dirs, source_exclude_dirs) =
     Inr (source_include_dirs, source_exclude_dirs)"
| "source_dirs_loop crates (crate # rest) transitiveDeps (source_include_dirs, source_exclude_dirs) =
     (case add_dep_dirs crates crate (elems (transitiveDeps (CrateId crate)))
             (source_include_dirs(CrateId crate \<mapsto>
                elems (source_include_dirs (CrateId crate)) @ elems (IncludeDirs (Source crate))),
              source_exclude_dirs(CrateId crate \<mapsto>
                elems (source_exclude_dirs (CrateId crate)) @ ExcludeDirs (Source crate))) of
        Inl p \<Rightarrow> Inl p
      | Inr dirs \<Rightarrow> source_dirs_loop crates rest transitiveDeps dirs)"

definition getSourceDirs ::
  "Crate list \<Rightarrow> (uint32 \<rightharpoonup> uint32 list) \<Rightarrow> panic + dirs_map \<times> dirs_map" where
  "getSourceDirs crates transitiveDeps =
     source_dirs_loop crates crates transitiveDeps (Map.empty, Map.empty)"

text \<open>
  What \<open>main\<close> reads for a crate from the two maps that \<open>getSourceDirs\<close> returns:
  \<open>source_include_dirs[crate.CrateId]\<close> and \<open>source_exclude_dirs[crate.CrateId]\<close>.
\<close>

definition aggregated_dirs ::
  "panic + dirs_map \<times> dirs_map \<Rightarrow> uint32 \<Rightarrow> panic + string list \<times> string list" where
  "aggregated_dirs r k =
     (case r of
        Inl p \<Rightarrow> Inl p
      | Inr (source_include_dirs, source_exclude_dirs) \<Rightarrow>
          Inr (elems (source_include_dirs k), elems (source_exclude_dirs k)))"

text \<open>
  The directories that the inner loop of \<open>getSourceDirs\<close> appends for a list of
  dependency ids, each id read as a position in \<open>crates\<close>.
\<close>

definition dep_include_dirs :: "Crate list \<Rightarrow> uint32 list \<Rightarrow> string list" where
  "dep_include_dirs crates deps =
     concat (map (\<lambda>d. elems (IncludeDirs (Source (crates ! unat d)))) deps)"

definition dep_exclude_dirs :: "Crate list \<Rightarrow> uint32 list \<Rightarrow> string list" where
  "dep_exclude_dirs crates deps =
     concat (map (\<lambda>d. if IncludeDirs (Source (crates ! unat d)) \<noteq> None
                       then ExcludeDirs (Source (crates ! unat d)) else []) deps)"

text \<open>
  The aggregation in the words of the specification, to compare \<open>getSourceDirs\<close> with: the
  crate's own directories, then for each id of the closure, in order, the directories of
  the crate that has this \<open>CrateId\<close>, if that crate declares include directories.
\<close>

definition find_crate :: "Crate list \<Rightarrow> uint32 \<Rightarrow> Crate option" where
  "find_crate crates k = find (\<lambda>c. CrateId c = k) crates"

definition spec_include_dirs :: "Crate list \<Rightarrow> uint32 list \<Rightarrow> Crate \<Rightarrow> string list" where
  "spec_include_dirs crates closure crate =
     elems (IncludeDirs (Source crate))
       @ concat (map (\<lambda>k. case find_crate crates k of
                             None \<Rightarrow> []
                           | Some c \<Rightarrow> elems (IncludeDirs (Source c))) closure)"

definition spec_exclude_dirs :: "Crate list \<Rightarrow> uint32 list \<Rightarrow> Crate \<Rightarrow> string list" where
  "spec_exclude_dirs crates closure crate =
     ExcludeDirs (Source crate)
       @ concat (map (\<lambda>k. case find_crate crates k of
                             None \<Rightarrow> []
                           | Some c \<Rightarrow>
                               if IncludeDirs (Source c) \<noteq> None then ExcludeDirs (Source c)
                               else []) closure)"

text \<open>The ids that the dependency edges of a manifest name.\<close>

definition edge_ids :: "Crate list \<Rightarrow> uint32 set" where
  "edge_ids crates = {dep_CrateId d | c d. c \<in> set crates \<and> d \<in> set (Deps c)}"

text \<open>The manifests in which every crate's \<open>CrateId\<close> is its position in the list.\<close>

definition ids_are_positions :: "Crate list \<Rightarrow> bool" where
  "ids_are_positions crates \<longleftrightarrow> list_all (\<lambda>i. unat (CrateId (crates ! i)) = i) [0..<length crates]"

section \<open>Collecting the source files\<close>

text \<open>
  The records of the kythe protocol buffers that the program fills in, with the fields it
  sets.
\<close>

record VName =
  Corpus :: string
  Language :: string
  Path :: string
  Root :: string

record FileInfo =
  info_Path :: string
  info_Digest :: string

record FileInput =
  input_VName :: VName
  input_Info :: FileInfo

record CompilationUnit =
  unit_VName :: VName
  RequiredInput :: "FileInput list"
  SourceFile :: "string list"

text \<open>
  Go's \<open>filepath.HasPrefix\<close> and \<open>filepath.Ext\<close>, as the standard library defines them on
  Unix: the first is \<open>strings.HasPrefix\<close>, the second scans the path from its end for a
  dot and stops at a path separator.
\<close>

definition HasPrefix :: "string \<Rightarrow> string \<Rightarrow> bool" where
  "HasPrefix p pref = prefix pref p"

fun ext_scan :: "string \<Rightarrow> string \<Rightarrow> string" where
  "ext_scan [] acc = []"
| "ext_scan (c # cs) acc =
     (if c = CHR ''/'' then []
      else if c = CHR ''.'' then c # acc
      else ext_scan cs (c # acc))"

definition Ext :: "string \<Rightarrow> string" where
  "Ext path = ext_scan (rev path) []"

text \<open>
  The world outside the program. An error value of Go is an \<open>error\<close>; \<open>os.Stat\<close> answers
  with an error that \<open>os.IsNotExist\<close> accepts, with another error, or with a file info, of
  which only \<open>IsDir()\<close> is read. The state of the kzip writer is of a type \<open>'w\<close>, threaded
  through \<open>AddFile\<close> and \<open>AddUnit\<close>.
\<close>

datatype error = IOError string

datatype stat_result = StatNotExist | StatError error | StatInfo bool

text \<open>
  One call of the function given to \<open>vfs.Walk\<close>: a path with its file info, of which only
  \<open>IsDir()\<close> is read, or a path with the error met there.
\<close>

datatype visit = Entry string bool | Failed string error

record 'w env =
  range_order :: "uint32 list \<Rightarrow> uint32 list"
  os_stat :: "string \<Rightarrow> stat_result"
  os_open :: "string \<Rightarrow> error + string"
  json_decode :: "string \<Rightarrow> error + RustProject"
  json_marshal_indent :: "Crate \<Rightarrow> error + string"
  vfs_walk :: "string \<Rightarrow> visit list"
  vfs_open :: "string \<Rightarrow> error + string"
  vfs_create :: "string \<Rightarrow> error + string"
  kzip_new_writer :: "string \<Rightarrow> error + 'w"
  kzip_add_file :: "'w \<Rightarrow> string \<Rightarrow> (error + string) \<times> 'w"
  kzip_add_unit :: "'w \<Rightarrow> CompilationUnit \<Rightarrow> (error + string) \<times> 'w"

text \<open>
  Modelled from the spec: \<open>vfs.Walk\<close>, of the package \<open>kythe/go/platform/vfs\<close>, which is
  not among the sources. It walks the tree under a directory and calls the given function
  at every path; the first error that the function returns ends the walk and is the
  result of \<open>vfs.Walk\<close>. \<open>vfs_walk env dir\<close> lists the calls that a walk of \<open>dir\<close> makes as
  long as the function returns no error; a directory that cannot be walked at all is the
  single call \<open>Failed dir err\<close>.
\<close>

fun Walk :: "visit list \<Rightarrow> (visit \<Rightarrow> 's \<Rightarrow> error option \<times> 's) \<Rightarrow> 's \<Rightarrow> error option \<times> 's" where
  "Walk [] fn s = (None, s)"
| "Walk (v # vs) fn s =
     (case fn v s of
        (Some err, s') \<Rightarrow> (Some err, s')
      | (None, s') \<Rightarrow> Walk vs fn s')"

text \<open>
  What the function literal of \<open>getSourceFiles\<close> reads and writes besides its arguments:
  the variable \<open>source_files\<close>, the slice behind \<open>required_inputs\<close> and the kzip writer.
\<close>

record 'w collected =
  col_source_files :: "string list"
  col_required_inputs :: "FileInput list"
  col_kzip_writer :: 'w

definition walk_fn ::
  "'w env \<Rightarrow> string list \<Rightarrow> string \<Rightarrow> visit \<Rightarrow> 'w collected \<Rightarrow> error option \<times> 'w collected" where
  "walk_fn env exclude_dirs projectRoot v st =
     (case v of
        Failed path err \<Rightarrow> (Some err, st)
      | Entry path is_dir \<Rightarrow>
          if is_dir then (None, st)
          else if list_ex (\<lambda>exclude_dir. HasPrefix path exclude_dir) exclude_dirs then (None, st)
          else if Ext path \<noteq> ''.rs'' then (None, st)
          else (case vfs_open env path of
                  Inl err \<Rightarrow> (Some err, st)
                | Inr input \<Rightarrow>
                    (case kzip_add_file env (col_kzip_writer st) input of
                       (Inl err, w) \<Rightarrow> (Some err, st\<lparr>col_kzip_writer := w\<rparr>)
                     | (Inr digest, w) \<Rightarrow>
                         (let path' = removeProjectRoot path projectRoot;
                              vname = \<lparr>Corpus = ''fuchsia'', Language = ''rust'',
                                       Path = path', Root = []\<rparr>
                          in (None,
                              \<lparr>col_source_files = col_source_files st @ [path'],
                               col_required_inputs = col_required_inputs st
                                 @ [\<lparr>input_VName = vname,
                                     input_Info = \<lparr>info_Path = path', info_Digest = digest\<rparr>\<rparr>],
                               col_kzip_writer = w\<rparr>)))))"

text \<open>
  The loop over \<open>include_dirs\<close>: the error of a walk is dropped (\<open>continue\<close>), what the walk
  did before the error stays.
\<close>

fun collect_dirs ::
  "'w env \<Rightarrow> string list \<Rightarrow> string list \<Rightarrow> string \<Rightarrow> 'w collected \<Rightarrow> 'w collected" where
  "collect_dirs env [] exclude_dirs projectRoot st = st"
| "collect_dirs env (include_dir # rest) exclude_dirs projectRoot st =
     (case Walk (vfs_walk env include_dir) (walk_fn env exclude_dirs projectRoot) st of
        (Some err, st') \<Rightarrow> collect_dirs env rest exclude_dirs projectRoot st'
      | (None, st') \<Rightarrow> collect_dirs env rest exclude_dirs projectRoot st')"

text \<open>
  \<open>getSourceFiles\<close> returns its slice of paths and an error, here a sum, next to the slice
  that \<open>required_inputs\<close> points to and the state of the writer.
\<close>

definition getSourceFiles ::
  "'w env \<Rightarrow> Crate \<Rightarrow> string list \<Rightarrow> string list \<Rightarrow> string \<Rightarrow> FileInput list \<Rightarrow> 'w \<Rightarrow>
     (error + string list) \<times> FileInput list \<times> 'w" where
  "getSourceFiles env crate include_dirs exclude_dirs projectRoot required_inputs_in w =
     (let st = collect_dirs env include_dirs exclude_dirs projectRoot
                 \<lparr>col_source_files = [], col_required_inputs = required_inputs_in, col_kzip_writer = w\<rparr>
      in (Inr (col_source_files st), col_required_inputs st, col_kzip_writer st))"

text \<open>
  The \<open>CompilationUnit_FileInput\<close> that the function literal of \<open>getSourceFiles\<close> appends
  for a recorded path and a digest.
\<close>

definition file_input :: "string \<Rightarrow> string \<Rightarrow> FileInput" where
  "file_input path digest =
     \<lparr>input_VName = \<lparr>Corpus = ''fuchsia'', Language = ''rust'', Path = path, Root = []\<rparr>,
      input_Info = \<lparr>info_Path = path, info_Digest = digest\<rparr>\<rparr>"

text \<open>What a state holds beyond another one: the files of a list of candidates.\<close>

definition extends_by ::
  "string \<Rightarrow> 'w collected \<Rightarrow> (string \<times> string) list \<Rightarrow> 'w collected \<Rightarrow> bool" where
  "extends_by projectRoot st cands st' \<longleftrightarrow>
     col_source_files st' = col_source_files st @ map (\<lambda>c. removeProjectRoot (fst c) projectRoot) cands
     \<and> col_required_inputs st'
         = col_required_inputs st
             @ map (\<lambda>c. file_input (removeProjectRoot (fst c) projectRoot) (snd c)) cands"

text \<open>The two filters of the function literal, on a walked path.\<close>

definition passes :: "string list \<Rightarrow> string \<Rightarrow> bool" where
  "passes exclude_dirs p \<longleftrightarrow> (\<forall>e\<in>set exclude_dirs. \<not> prefix e p) \<and> Ext p = ''.rs''"

section \<open>The driver\<close>

text \<open>
  A run of \<open>main\<close> ends with \<open>os.Exit\<close>, with a panic, or by returning, which is exit code
  0; \<open>Done i w\<close> keeps the count \<open>i\<close> of units written and the state of the writer. The
  calls that change the file system are recorded in order. The text printed to the
  standard output is left out, and so is the closing of the manifest file, of the source
  files and of the writer, on which no result depends.
\<close>

datatype 'w outcome = Exit nat | Panic panic | Done nat 'w

datatype event = RemoveAll string | Create string

record 'w run =
  outcome :: "'w outcome"
  events :: "event list"

text \<open>The body of the last loop of \<open>main\<close>, for one crate.\<close>

definition add_crate ::
  "'w env \<Rightarrow> string \<Rightarrow> dirs_map \<Rightarrow> dirs_map \<Rightarrow> 'w \<times> nat \<Rightarrow> Crate \<Rightarrow> 'w \<times> nat" where
  "add_crate env projectRoot source_include_dirs source_exclude_dirs st crate =
     (case st of (w, i) \<Rightarrow>
        (case getSourceFiles env crate (elems (IncludeDirs (Source crate)))
                (ExcludeDirs (Source crate)) projectRoot [] w of
           (Inl err, required_inputs, w1) \<Rightarrow> (w1, i)
         | (Inr crate_sources, required_inputs, w1) \<Rightarrow>
             (case getSourceFiles env crate (elems (source_include_dirs (CrateId crate)))
                     (elems (source_exclude_dirs (CrateId crate))) projectRoot [] w1 of
                (Inl err, required_inputs, w2) \<Rightarrow> (w2, i)
              | (Inr paths, required_inputs, w2) \<Rightarrow>
                  (case kzip_add_unit env w2
                          \<lparr>unit_VName = \<lparr>Corpus = ''fuchsia'', Language = ''rust'',
                                          Path = [], Root = Label crate\<rparr>,
                           RequiredInput = required_inputs,
                           SourceFile = crate_sources\<rparr> of
                     (Inl err, w3) \<Rightarrow> (w3, i)
                   | (Inr digest, w3) \<Rightarrow> (w3, i + 1)))))"

text \<open>
  \<open>main\<close>, with \<open>os.Args\<close> as \<open>args\<close>. \<open>None\<close> is a run that never ends, which only the
  loop of \<open>getTransitiveDependencies\<close> could cause.
\<close>

definition main :: "'w env \<Rightarrow> string list \<Rightarrow> 'w run option" where
  "main env args =
     (if length args < 4 then Some \<lparr>outcome = Exit 1, events = []\<rparr>
      else
        let projectJSONPath = args ! 1; outputDir = args ! 2; projectRoot = args ! 3 in
        if projectRoot = [] then Some \<lparr>outcome = Panic (IndexOutOfRange (- 1) 0), events = []\<rparr>
        else
          let projectRoot =
                (if projectRoot ! (length projectRoot - 1) \<noteq> CHR ''/''
                 then projectRoot @ ''/'' else projectRoot) in
          case os_stat env projectRoot of
            StatNotExist \<Rightarrow> Some \<lparr>outcome = Exit 1, events = []\<rparr>
          | StatError err \<Rightarrow> Some \<lparr>outcome = Exit 1, events = []\<rparr>
          | StatInfo is_dir \<Rightarrow>
              if \<not> is_dir then Some \<lparr>outcome = Exit 1, events = []\<rparr>
              else
                (case os_open env projectJSONPath of
                   Inl err \<Rightarrow> Some \<lparr>outcome = Exit 1, events = []\<rparr>
                 | Inr projectJSONFile \<Rightarrow>
                     (case json_decode env projectJSONFile of
                        Inl err \<Rightarrow> Some \<lparr>outcome = Exit 1, events = []\<rparr>
                      | Inr projectJSON \<Rightarrow>
                          let crates = Crates projectJSON in
                          if crates = []
                          then Some \<lparr>outcome = Panic (IndexOutOfRange 0 0), events = []\<rparr>
                          else
                            (case json_marshal_indent env (crates ! 0) of
                               Inl err \<Rightarrow> Some \<lparr>outcome = Exit 1, events = []\<rparr>
                             | Inr firstCrate \<Rightarrow>
                                 (case build_transitive_deps (range_order env) crates
                                         (build_crate_deps crates) Map.empty of
                                    None \<Rightarrow> None
                                  | Some transitiveDeps \<Rightarrow>
                                      (case getSourceDirs crates transitiveDeps of
                                         Inl p \<Rightarrow>
                                           Some \<lparr>outcome = Panic p, events = [RemoveAll outputDir]\<rparr>
                                       | Inr (source_include_dirs, source_exclude_dirs) \<Rightarrow>
                                           (case vfs_create env outputDir of
                                              Inl err \<Rightarrow>
                                                Some \<lparr>outcome = Exit 1,
                                                      events = [RemoveAll outputDir, Create outputDir]\<rparr>
                                            | Inr out \<Rightarrow>
                                                (case kzip_new_writer env out of
                                                   Inl err \<Rightarrow>
                                                     Some \<lparr>outcome = Exit 1,
                                                           events = [RemoveAll outputDir, Create outputDir]\<rparr>
                                                 | Inr w \<Rightarrow>
                                                     (case foldl (add_crate env projectRoot
                                                               source_include_dirs source_exclude_dirs)
                                                             (w, 0) crates of
                                                        (w', i) \<Rightarrow>
                                                          Some \<lparr>outcome = Done i w',
                                                                events = [RemoveAll outputDir,
                                                                  Create outputDir]\<rparr>)))))))))"

section \<open>Example manifests\<close>

text \<open>A crate with the given id, label, dependency ids and source directories.\<close>

definition example_crate ::
  "uint32 \<Rightarrow> string \<Rightarrow> uint32 list \<Rightarrow> string list option \<Rightarrow> string list \<Rightarrow> Crate" where
  "example_crate k label dep_ids include_dirs exclude_dirs =
     \<lparr>RootModule = [], Edition = ''2021'',
      Deps = map (\<lambda>d. \<lparr>dep_CrateId = d, dep_Name = []\<rparr>) dep_ids,
      Cfg = [], Files = [], CompilerArgs = [], CrateId = k, Label = label, Target = [],
      Source = \<lparr>IncludeDirs = include_dirs, ExcludeDirs = exclude_dirs\<rparr>\<rparr>"

text \<open>
  A dependency graph with a cycle between the crates 1 and 2, an edge given twice and the
  ids 3 and 4 without an entry of their own.
\<close>

definition cyclic_deps :: "uint32 \<rightharpoonup> uint32 list" where
  "cyclic_deps = [1 \<mapsto> [2, 3], 2 \<mapsto> [1, 4, 4]]"

text \<open>
  A project of two crates under \<open>/repo/\<close>: \<open>a\<close> has no dependencies and excludes its
  directory \<open>gen\<close>, \<open>b\<close> depends on \<open>a\<close>.
\<close>

definition crate_a :: Crate where
  "crate_a = example_crate 0 ''//a:a'' [] (Some [''/repo/a'']) [''/repo/a/gen'']"

definition crate_b :: Crate where
  "crate_b = example_crate 1 ''//b:b'' [0] (Some [''/repo/b'']) []"

definition example_project :: RustProject where
  "example_project = \<lparr>Crates = [crate_a, crate_b]\<rparr>"

text \<open>
  A manifest with one crate whose only dependency edge names the id 5, which no crate has,
  and a manifest that lists the crate with id 1 before the crate with id 0.
\<close>

definition dangling_crates :: "Crate list" where
  "dangling_crates = [example_crate 0 ''//a:a'' [5] (Some [''/repo/a'']) []]"

definition swapped_crates :: "Crate list" where
  "swapped_crates =
     [example_crate 1 ''//a:a'' [0] (Some [''/repo/a'']) [],
      example_crate 0 ''//b:b'' [] (Some [''/repo/b'']) []]"

text \<open>A third crate, which depends on both and lists \<open>/repo/a\<close> among its own directories.\<close>

definition crate_c :: Crate where
  "crate_c = example_crate 2 ''//c:c'' [1, 0] (Some [''/repo/c'', ''/repo/a'']) [''/repo/a/gen'']"

text \<open>
  A manifest with unique ids that are not positions: the crate 20 depends on the crate 10,
  which has no dependencies.
\<close>

definition sparse_crates :: "Crate list" where
  "sparse_crates =
     [example_crate 20 ''//a:a'' [10] (Some [''/repo/a'']) [],
      example_crate 10 ''//b:b'' [] (Some [''/repo/b'']) []]"

text \<open>
  A world for the examples. The manifest \<open>project.json\<close> decodes to the project above
  \<open>empty.json\<close> to a project without crates and \<open>dangling.json\<close> to the manifest
  with the dangling edge; \<open>/repo/b/broken.rs\<close> is listed by the
  walk of \<open>/repo/b\<close> and cannot be opened. The content of a source file is written as its
  path, its digest is the content after \<open>sha:\<close>, and the state of the kzip writer is the
  list of the units added so far.
\<close>

definition example_walk :: "string \<Rightarrow> visit list" where
  "example_walk dir =
     (if dir = ''/repo/a''
      then [Entry ''/repo/a'' True, Entry ''/repo/a/lib.rs'' False,
            Entry ''/repo/a/gen'' True, Entry ''/repo/a/gen/out.rs'' False,
            Entry ''/repo/a/notes.txt'' False]
      else if dir = ''/repo/b''
      then [Entry ''/repo/b'' True, Entry ''/repo/b/main.rs'' False,
            Entry ''/repo/b/broken.rs'' False, Entry ''/repo/b/util.rs'' False]
      else [Failed dir (IOError ''no such file or directory'')])"

definition example_env :: "CompilationUnit list env" where
  "example_env =
     \<lparr>range_order = id,
      os_stat = (\<lambda>p. if p = ''/repo/'' then StatInfo True else StatNotExist),
      os_open = (\<lambda>p. if p \<in> set [''project.json'', ''empty.json'', ''dangling.json''] then Inr p
                      else Inl (IOError ''no such file or directory'')),
      json_decode = (\<lambda>f. if f = ''project.json'' then Inr example_project
                          else if f = ''empty.json'' then Inr \<lparr>Crates = []\<rparr>
                          else if f = ''dangling.json'' then Inr \<lparr>Crates = dangling_crates\<rparr>
                          else Inl (IOError ''invalid character'')),
      json_marshal_indent = (\<lambda>c. Inr (Label c)),
      vfs_walk = example_walk,
      vfs_open = (\<lambda>p. if p = ''/repo/b/broken.rs'' then Inl (IOError ''permission denied'')
                       else Inr p),
      vfs_create = (\<lambda>p. Inr p),
      kzip_new_writer = (\<lambda>out. Inr []),
      kzip_add_file = (\<lambda>w input. (Inr (''sha:'' @ input), w)),
      kzip_add_unit = (\<lambda>w u. (Inr ''unit'', w @ [u]))\<rparr>"

section \<open>Properties of path normalisation\<close>

text \<open>
  C4. The recorded path is the path without its \<open>projectRoot\<close> prefix when the path
  begins with \<open>projectRoot\<close>, and the path itself otherwise. With the root \<open>/repo/\<close>,
  \<open>/repo/src/lib.rs\<close> is recorded as \<open>src/lib.rs\<close> and \<open>/other/lib.rs\<close> is recorded
  unchanged.
\<close>

theorem removeProjectRoot_strips_prefix:
  "(prefix projectRoot path \<longrightarrow> projectRoot @ removeProjectRoot path projectRoot = path)
   \<and> (\<not> prefix projectRoot path \<longrightarrow> removeProjectRoot path projectRoot = path)
   \<and> removeProjectRoot ''/repo/src/lib.rs'' ''/repo/'' = ''src/lib.rs''
   \<and> removeProjectRoot ''/other/lib.rs'' ''/repo/'' = ''/other/lib.rs''"
proof -
  have a: "projectRoot @ removeProjectRoot path projectRoot = path" if "prefix projectRoot path"
  proof -
    from that obtain rest where "path = projectRoot @ rest"
      by (auto simp: prefix_def)
    then show ?thesis
      by (simp add: removeProjectRoot_def)
  qed
  have b: "removeProjectRoot path projectRoot = path" if "\<not> prefix projectRoot path"
  proof -
    have "take (length projectRoot) path \<noteq> projectRoot"
      using that by (metis take_is_prefix)
    then show ?thesis
      by (simp add: removeProjectRoot_def)
  qed
  have c: "removeProjectRoot ''/repo/src/lib.rs'' ''/repo/'' = ''src/lib.rs''"
    by (simp add: removeProjectRoot_def)
  have d: "removeProjectRoot ''/other/lib.rs'' ''/repo/'' = ''/other/lib.rs''"
    by (simp add: removeProjectRoot_def)
  from a b c d show ?thesis
    by blast
qed

theorem removeProjectRoot_strips_prefix_witness:
  "prefix ''/repo/'' ''/repo/src/lib.rs''
   \<and> ''/repo/'' @ removeProjectRoot ''/repo/src/lib.rs'' ''/repo/'' = ''/repo/src/lib.rs''
   \<and> \<not> prefix ''/repo/'' ''/other/lib.rs''
   \<and> removeProjectRoot ''/other/lib.rs'' ''/repo/'' = ''/other/lib.rs''"
  using removeProjectRoot_strips_prefix [of "''/repo/''" "''/repo/src/lib.rs''"]
    removeProjectRoot_strips_prefix [of "''/repo/''" "''/other/lib.rs''"]
  by simp

section \<open>Properties of the transitive dependencies\<close>

lemma bfs_loop_Nil: "bfs_loop crate_deps [] visited = Some visited"
  by (simp add: bfs_loop.simps)

lemma bfs_loop_Cons:
  "bfs_loop crate_deps (c # rest) visited =
     bfs_loop crate_deps (fst (visit_deps (elems (crate_deps c)) (rest, visited)))
       (snd (visit_deps (elems (crate_deps c)) (rest, visited)))"
  by (subst bfs_loop.simps) (simp add: case_prod_beta)

text \<open>
  There are finitely many values of \<open>uint32\<close>; a store into \<open>visited\<close> leaves fewer of
  them outside.
\<close>

lemma card_unvisited_less:
  fixes K :: "uint32 set"
  assumes "d \<notin> K"
  shows "card (- insert d K) < card (- K)"
  by (rule psubset_card_mono) (use assms in auto)

text \<open>
  Every id that the inner loop appends to the queue is new in \<open>visited\<close>, so twice the
  number of ids not yet visited plus the length of the queue does not grow.
\<close>

lemma visit_deps_measure:
  "visit_deps ds (q, v) = (q', v') \<Longrightarrow>
     2 * card (- fst ` set v') + length q' \<le> 2 * card (- fst ` set v) + length q"
proof (induction ds arbitrary: q v)
  case Nil
  then show ?case by simp
next
  case (Cons d ds)
  show ?case
  proof (cases "map_of v d = None")
    case True
    then have "d \<notin> fst ` set v"
      by (simp add: map_of_eq_None_iff)
    then have "card (- insert d (fst ` set v)) < card (- fst ` set v)"
      by (rule card_unvisited_less)
    moreover have "2 * card (- fst ` set v') + length q'
        \<le> 2 * card (- fst ` set (AList.update d True v)) + length (q @ [d])"
      using Cons.prems True by (intro Cons.IH) simp
    ultimately show ?thesis
      by (simp add: dom_update)
  next
    case False
    then have "visit_deps ds (q, v) = (q', v')"
      using Cons.prems by auto
    then show ?thesis
      by (rule Cons.IH)
  qed
qed

lemma bfs_loop_terminates: "\<exists>r. bfs_loop crate_deps queue visited = Some r"
proof (induction "2 * card (- fst ` set visited) + length queue"
    arbitrary: queue visited rule: less_induct)
  case less
  show ?case
  proof (cases queue)
    case Nil
    then show ?thesis
      by (simp add: bfs_loop_Nil)
  next
    case (Cons c rest)
    obtain q' v' where step: "visit_deps (elems (crate_deps c)) (rest, visited) = (q', v')"
      by (cases "visit_deps (elems (crate_deps c)) (rest, visited)")
    from visit_deps_measure [OF step]
    have "2 * card (- fst ` set v') + length q' < 2 * card (- fst ` set visited) + length queue"
      using Cons by simp
    then have "\<exists>r. bfs_loop crate_deps q' v' = Some r"
      by (rule less)
    then show ?thesis
      using Cons step by (simp add: bfs_loop_Cons)
  qed
qed

lemma getTransitiveDependencies_result:
  "\<exists>visited. bfs_loop crate_deps [CrateId crate] [(CrateId crate, True)] = Some visited
     \<and> getTransitiveDependencies ro crate crate_deps
         = Some (filter (\<lambda>k. k \<noteq> CrateId crate) (ro (map fst visited)))"
proof -
  obtain visited where "bfs_loop crate_deps [CrateId crate] [(CrateId crate, True)] = Some visited"
    using bfs_loop_terminates by blast
  then show ?thesis
    by (simp add: getTransitiveDependencies_def)
qed

lemma is_range_order_id: "is_range_order id"
  by (simp add: is_range_order_def)

lemma is_range_order_rev: "is_range_order rev"
  by (simp add: is_range_order_def)

text \<open>
  C1. For every crate and every adjacency map the computation returns a list of crate ids
  without the crate's own id, and a second run on the same inputs, whatever the order in
  which Go ranges over the map \<open>visited\<close> in either run, returns the same ids as a set.
\<close>

theorem getTransitiveDependencies_excludes_self_and_is_stable:
  assumes "is_range_order ro" and "is_range_order ro'"
  shows "\<exists>r r'. getTransitiveDependencies ro crate crate_deps = Some r
           \<and> getTransitiveDependencies ro' crate crate_deps = Some r'
           \<and> CrateId crate \<notin> set r \<and> set r' = set r"
proof -
  obtain visited where v: "bfs_loop crate_deps [CrateId crate] [(CrateId crate, True)] = Some visited"
    using bfs_loop_terminates by blast
  have "getTransitiveDependencies ro crate crate_deps
          = Some (filter (\<lambda>k. k \<noteq> CrateId crate) (ro (map fst visited)))"
    and "getTransitiveDependencies ro' crate crate_deps
          = Some (filter (\<lambda>k. k \<noteq> CrateId crate) (ro' (map fst visited)))"
    using v by (simp_all add: getTransitiveDependencies_def)
  moreover have "set (ro (map fst visited)) = set (ro' (map fst visited))"
    using assms by (simp add: is_range_order_def)
  ultimately show ?thesis
    by simp
qed

theorem getTransitiveDependencies_excludes_self_and_is_stable_witness:
  "is_range_order id \<and> is_range_order rev
   \<and> getTransitiveDependencies id (example_crate 1 ''a'' [2, 3] None []) cyclic_deps = Some [2, 3, 4]
   \<and> getTransitiveDependencies rev (example_crate 1 ''a'' [2, 3] None []) cyclic_deps = Some [4, 3, 2]
   \<and> (\<exists>r r'. getTransitiveDependencies id (example_crate 1 ''a'' [2, 3] None []) cyclic_deps = Some r
         \<and> getTransitiveDependencies rev (example_crate 1 ''a'' [2, 3] None []) cyclic_deps = Some r'
         \<and> CrateId (example_crate 1 ''a'' [2, 3] None []) \<notin> set r \<and> set r' = set r)"
proof -
  have "getTransitiveDependencies id (example_crate 1 ''a'' [2, 3] None []) cyclic_deps = Some [2, 3, 4]"
    by (simp add: getTransitiveDependencies_def example_crate_def cyclic_deps_def
        bfs_loop_Nil bfs_loop_Cons elems_def)
  moreover have "getTransitiveDependencies rev (example_crate 1 ''a'' [2, 3] None []) cyclic_deps
      = Some [4, 3, 2]"
    by (simp add: getTransitiveDependencies_def example_crate_def cyclic_deps_def
        bfs_loop_Nil bfs_loop_Cons elems_def)
  ultimately show ?thesis
    using getTransitiveDependencies_excludes_self_and_is_stable
      [OF is_range_order_id is_range_order_rev, of "example_crate 1 ''a'' [2, 3] None []" cyclic_deps]
      is_range_order_id is_range_order_rev
    by simp
qed

text \<open>
  C2. For every crate and every adjacency map, with or without cycles, the computation
  ends and returns a finite set of ids; a crate without an entry in the adjacency map is
  taken off the queue like a crate with no neighbours, and is no error.
\<close>

theorem getTransitiveDependencies_terminates:
  "(\<exists>r. getTransitiveDependencies ro crate crate_deps = Some r \<and> finite (set r))
   \<and> (crate_deps k = None \<longrightarrow>
        bfs_loop crate_deps (k # queue) visited = bfs_loop crate_deps queue visited)"
proof -
  have "\<exists>r. getTransitiveDependencies ro crate crate_deps = Some r \<and> finite (set r)"
    using getTransitiveDependencies_result [of crate_deps crate ro] by auto
  moreover have "bfs_loop crate_deps (k # queue) visited = bfs_loop crate_deps queue visited"
    if "crate_deps k = None"
    using that by (simp add: bfs_loop_Cons elems_def)
  ultimately show ?thesis
    by blast
qed

theorem getTransitiveDependencies_terminates_witness:
  "cyclic_deps 3 = None
   \<and> bfs_loop cyclic_deps [3, 2] [(1, True), (2, True), (3, True)]
       = bfs_loop cyclic_deps [2] [(1, True), (2, True), (3, True)]
   \<and> bfs_loop cyclic_deps [2] [(1, True), (2, True), (3, True)]
       = Some [(1, True), (2, True), (3, True), (4, True)]
   \<and> (\<exists>r. getTransitiveDependencies id (example_crate 2 ''b'' [1, 4, 4] None []) cyclic_deps = Some r)"
proof -
  have "cyclic_deps 3 = None"
    by (simp add: cyclic_deps_def)
  moreover have "bfs_loop cyclic_deps [2] [(1, True), (2, True), (3, True)]
       = Some [(1, True), (2, True), (3, True), (4, True)]"
    by (simp add: cyclic_deps_def bfs_loop_Nil bfs_loop_Cons elems_def)
  ultimately show ?thesis
    using getTransitiveDependencies_terminates
      [of id "example_crate 2 ''b'' [1, 4, 4] None []" cyclic_deps 3 "[2]"
        "[(1, True), (2, True), (3, True)]"]
    by blast
qed

section \<open>Properties of the source directories\<close>

lemma add_dep_dirs_value:
  assumes "add_dep_dirs crates crate deps (inc, exc) = Inr (inc', exc')"
    and "inc (CrateId crate) = Some a" and "exc (CrateId crate) = Some b"
  shows "inc' = inc(CrateId crate \<mapsto> a @ dep_include_dirs crates deps)
       \<and> exc' = exc(CrateId crate \<mapsto> b @ dep_exclude_dirs crates deps)"
  using assms
proof (induction deps arbitrary: inc exc a b)
  case Nil
  then show ?case
    by (auto simp: dep_include_dirs_def dep_exclude_dirs_def)
next
  case (Cons d deps)
  from Cons.prems(1) have inrange: "unat d < length crates"
    by (auto split: if_splits)
  show ?case
  proof (cases "IncludeDirs (Source (crates ! unat d))")
    case None
    then have "add_dep_dirs crates crate deps (inc, exc) = Inr (inc', exc')"
      using Cons.prems(1) inrange by simp
    from Cons.IH [OF this Cons.prems(2,3)] show ?thesis
      using None by (simp add: dep_include_dirs_def dep_exclude_dirs_def elems_def)
  next
    case (Some dirs)
    let ?inc = "inc(CrateId crate \<mapsto> a @ dirs)"
    let ?exc = "exc(CrateId crate \<mapsto> b @ ExcludeDirs (Source (crates ! unat d)))"
    have "add_dep_dirs crates crate deps (?inc, ?exc) = Inr (inc', exc')"
      using Cons.prems inrange Some by (simp add: elems_def)
    moreover have "?inc (CrateId crate) = Some (a @ dirs)"
      and "?exc (CrateId crate) = Some (b @ ExcludeDirs (Source (crates ! unat d)))"
      by simp_all
    ultimately have "inc' = ?inc(CrateId crate \<mapsto> (a @ dirs) @ dep_include_dirs crates deps)
       \<and> exc' = ?exc(CrateId crate \<mapsto>
                  (b @ ExcludeDirs (Source (crates ! unat d))) @ dep_exclude_dirs crates deps)"
      by (rule Cons.IH)
    then show ?thesis
      using Some by (simp add: dep_include_dirs_def dep_exclude_dirs_def elems_def)
  qed
qed

lemma add_dep_dirs_no_panic:
  assumes "\<forall>d\<in>set deps. unat d < length crates"
  shows "\<exists>dirs. add_dep_dirs crates crate deps (inc, exc) = Inr dirs"
  using assms by (induction deps arbitrary: inc exc) auto

lemma source_dirs_loop_value:
  assumes "source_dirs_loop crates cs td (inc, exc) = Inr (inc', exc')"
    and "distinct (map CrateId cs)"
  shows "(c \<in> set cs \<longrightarrow>
            inc' (CrateId c) = Some (elems (inc (CrateId c)) @ elems (IncludeDirs (Source c))
                                      @ dep_include_dirs crates (elems (td (CrateId c))))
          \<and> exc' (CrateId c) = Some (elems (exc (CrateId c)) @ ExcludeDirs (Source c)
                                      @ dep_exclude_dirs crates (elems (td (CrateId c)))))
       \<and> (k \<notin> CrateId ` set cs \<longrightarrow> inc' k = inc k \<and> exc' k = exc k)"
  using assms
proof (induction cs arbitrary: inc exc c k)
  case Nil
  then show ?case by simp
next
  case (Cons c0 cs)
  let ?k0 = "CrateId c0"
  let ?inc0 = "inc(?k0 \<mapsto> elems (inc ?k0) @ elems (IncludeDirs (Source c0)))"
  let ?exc0 = "exc(?k0 \<mapsto> elems (exc ?k0) @ ExcludeDirs (Source c0))"
  from Cons.prems(1) obtain inc1 exc1
    where inner: "add_dep_dirs crates c0 (elems (td ?k0)) (?inc0, ?exc0) = Inr (inc1, exc1)"
      and rest: "source_dirs_loop crates cs td (inc1, exc1) = Inr (inc', exc')"
    by (auto split: sum.splits)
  from add_dep_dirs_value [OF inner]
  have inc1: "inc1 = inc(?k0 \<mapsto> (elems (inc ?k0) @ elems (IncludeDirs (Source c0)))
                                   @ dep_include_dirs crates (elems (td ?k0)))"
    and exc1: "exc1 = exc(?k0 \<mapsto> (elems (exc ?k0) @ ExcludeDirs (Source c0))
                                   @ dep_exclude_dirs crates (elems (td ?k0)))"
    by simp_all
  from Cons.prems(2) have dist: "distinct (map CrateId cs)" and fresh: "?k0 \<notin> CrateId ` set cs"
    by simp_all
  note IH = Cons.IH [OF rest dist]
  have first: "inc' (CrateId c) = Some (elems (inc (CrateId c)) @ elems (IncludeDirs (Source c))
                                      @ dep_include_dirs crates (elems (td (CrateId c))))
          \<and> exc' (CrateId c) = Some (elems (exc (CrateId c)) @ ExcludeDirs (Source c)
                                      @ dep_exclude_dirs crates (elems (td (CrateId c))))"
    if "c \<in> set (c0 # cs)"
  proof (cases "CrateId c = ?k0")
    case True
    with fresh have "inc' ?k0 = inc1 ?k0 \<and> exc' ?k0 = exc1 ?k0"
      using IH [where k = ?k0] by simp
    moreover have "c = c0"
    proof (rule ccontr)
      assume "c \<noteq> c0"
      with that have "c \<in> set cs" by simp
      then have "CrateId c \<in> CrateId ` set cs" by (rule imageI)
      with True fresh show False by simp
    qed
    ultimately show ?thesis
      by (simp add: inc1 exc1)
  next
    case False
    then have "c \<in> set cs"
      using that by auto
    with IH [where c = c] False show ?thesis
      by (simp add: inc1 exc1)
  qed
  have second: "inc' k = inc k \<and> exc' k = exc k" if "k \<notin> CrateId ` set (c0 # cs)"
  proof -
    from that have "k \<noteq> ?k0" and "k \<notin> CrateId ` set cs"
      by auto
    with IH [where k = k] show ?thesis
      by (simp add: inc1 exc1)
  qed
  from first second show ?case
    by blast
qed

lemma source_dirs_loop_no_panic:
  assumes "\<forall>c\<in>set cs. \<forall>d\<in>set (elems (td (CrateId c))). unat d < length crates"
  shows "\<exists>dirs. source_dirs_loop crates cs td (inc, exc) = Inr dirs"
  using assms
proof (induction cs arbitrary: inc exc)
  case Nil
  then show ?case by simp
next
  case (Cons c cs)
  let ?inc0 = "inc(CrateId c \<mapsto> elems (inc (CrateId c)) @ elems (IncludeDirs (Source c)))"
  let ?exc0 = "exc(CrateId c \<mapsto> elems (exc (CrateId c)) @ ExcludeDirs (Source c))"
  from Cons.prems have "\<forall>d\<in>set (elems (td (CrateId c))). unat d < length crates"
    by simp
  from add_dep_dirs_no_panic [OF this, of c ?inc0 ?exc0]
  obtain inc1 exc1 where "add_dep_dirs crates c (elems (td (CrateId c))) (?inc0, ?exc0) = Inr (inc1, exc1)"
    by (metis surj_pair)
  moreover have "\<exists>dirs. source_dirs_loop crates cs td (inc1, exc1) = Inr dirs"
    using Cons.prems by (intro Cons.IH) simp
  ultimately show ?case
    by simp
qed

lemma ids_are_positions_nth:
  "ids_are_positions crates \<Longrightarrow> i < length crates \<Longrightarrow> unat (CrateId (crates ! i)) = i"
  by (simp add: ids_are_positions_def list_all_iff)

lemma ids_are_positions_distinct:
  assumes "ids_are_positions crates"
  shows "distinct (map CrateId crates)"
  unfolding distinct_conv_nth
proof (intro allI impI)
  fix i j
  assume i: "i < length (map CrateId crates)" and j: "j < length (map CrateId crates)"
    and ne: "i \<noteq> j"
  have "unat (CrateId (crates ! i)) = i" and "unat (CrateId (crates ! j)) = j"
    using assms i j by (simp_all add: ids_are_positions_nth)
  with ne have "CrateId (crates ! i) \<noteq> CrateId (crates ! j)"
    by metis
  with i j show "map CrateId crates ! i \<noteq> map CrateId crates ! j"
    by simp
qed

lemma find_crate_position:
  assumes "ids_are_positions crates" and "unat d < length crates"
  shows "find_crate crates d = Some (crates ! unat d)"
proof -
  have "unat (CrateId (crates ! unat d)) = unat d"
    using assms by (rule ids_are_positions_nth)
  then have here: "CrateId (crates ! unat d) = d"
    by (simp add: word_unat_eq_iff)
  have before: "CrateId (crates ! j) \<noteq> d" if "j < unat d" for j
  proof
    assume "CrateId (crates ! j) = d"
    moreover have "j < length crates"
      using that assms(2) by simp
    then have "unat (CrateId (crates ! j)) = j"
      using assms(1) by (simp add: ids_are_positions_nth)
    ultimately show False
      using that by simp
  qed
  have "find (\<lambda>c. CrateId c = d) crates = Some (crates ! unat d)"
    unfolding find_Some_iff
  proof (intro exI conjI allI impI)
    show "unat d < length crates" by (rule assms(2))
    show "CrateId (crates ! unat d) = d" by (rule here)
    show "crates ! unat d = crates ! unat d" by (rule refl)
    show "\<not> CrateId (crates ! j) = d" if "j < unat d" for j
      using that by (rule before)
  qed
  then show ?thesis
    by (simp only: find_crate_def)
qed

lemma spec_dirs_by_position:
  assumes "ids_are_positions crates" and "\<forall>d\<in>set closure. unat d < length crates"
  shows "spec_include_dirs crates closure crate
           = elems (IncludeDirs (Source crate)) @ dep_include_dirs crates closure"
    and "spec_exclude_dirs crates closure crate
           = ExcludeDirs (Source crate) @ dep_exclude_dirs crates closure"
proof -
  have found: "find_crate crates d = Some (crates ! unat d)" if "d \<in> set closure" for d
    using assms that by (simp add: find_crate_position)
  have "map (\<lambda>k. case find_crate crates k of None \<Rightarrow> []
                   | Some c \<Rightarrow> elems (IncludeDirs (Source c))) closure
        = map (\<lambda>d. elems (IncludeDirs (Source (crates ! unat d)))) closure"
    by (rule map_cong [OF refl]) (simp add: found)
  then show "spec_include_dirs crates closure crate
           = elems (IncludeDirs (Source crate)) @ dep_include_dirs crates closure"
    by (simp only: spec_include_dirs_def dep_include_dirs_def)
  have "map (\<lambda>k. case find_crate crates k of None \<Rightarrow> []
                   | Some c \<Rightarrow> if IncludeDirs (Source c) \<noteq> None then ExcludeDirs (Source c)
                               else []) closure
        = map (\<lambda>d. if IncludeDirs (Source (crates ! unat d)) \<noteq> None
                       then ExcludeDirs (Source (crates ! unat d)) else []) closure"
    by (rule map_cong [OF refl]) (simp add: found)
  then show "spec_exclude_dirs crates closure crate
           = ExcludeDirs (Source crate) @ dep_exclude_dirs crates closure"
    by (simp only: spec_exclude_dirs_def dep_exclude_dirs_def)
qed

text \<open>
  C7, as the code has it. In a manifest in which every crate's \<open>CrateId\<close> is its position
  in the list of crates, and for closures that name only ids of crates of the manifest,
  the aggregated include directories of a crate are its own include directories followed,
  in the order of its closure, by the include directories of every crate of the closure,
  and the aggregated exclude directories are its own exclude directories followed, in the
  same order, by the exclude directories of the crates of the closure that declare include
  directories. Nothing is deduplicated.
\<close>

theorem getSourceDirs_aggregates_closure:
  assumes "ids_are_positions crates" and "crate \<in> set crates"
    and "\<forall>c\<in>set crates. \<forall>d\<in>set (elems (td (CrateId c))). unat d < length crates"
  shows "aggregated_dirs (getSourceDirs crates td) (CrateId crate)
           = Inr (spec_include_dirs crates (elems (td (CrateId crate))) crate,
                  spec_exclude_dirs crates (elems (td (CrateId crate))) crate)"
proof -
  from source_dirs_loop_no_panic [OF assms(3), of Map.empty Map.empty]
  obtain dirs where "source_dirs_loop crates crates td (Map.empty, Map.empty) = Inr dirs"
    by blast
  then obtain inc exc
    where run: "source_dirs_loop crates crates td (Map.empty, Map.empty) = Inr (inc, exc)"
    by (cases dirs) simp
  have "distinct (map CrateId crates)"
    using assms(1) by (rule ids_are_positions_distinct)
  from source_dirs_loop_value [OF run this, of crate] assms(2)
  have inc: "inc (CrateId crate) = Some (elems (IncludeDirs (Source crate))
                                     @ dep_include_dirs crates (elems (td (CrateId crate))))"
    and exc: "exc (CrateId crate) = Some (ExcludeDirs (Source crate)
                                     @ dep_exclude_dirs crates (elems (td (CrateId crate))))"
    by (simp_all add: elems_def)
  have "\<forall>d\<in>set (elems (td (CrateId crate))). unat d < length crates"
    using assms(2,3) by blast
  note spec = spec_dirs_by_position [OF assms(1) this, of crate]
  have "aggregated_dirs (getSourceDirs crates td) (CrateId crate)
          = Inr (elems (inc (CrateId crate)), elems (exc (CrateId crate)))"
    by (simp add: getSourceDirs_def aggregated_dirs_def run)
  also have "\<dots> = Inr (spec_include_dirs crates (elems (td (CrateId crate))) crate,
                  spec_exclude_dirs crates (elems (td (CrateId crate))) crate)"
    unfolding inc exc spec by (simp add: elems_def)
  finally show ?thesis .
qed

theorem getSourceDirs_aggregates_closure_witness:
  "ids_are_positions [crate_a, crate_b, crate_c]
   \<and> aggregated_dirs (getSourceDirs [crate_a, crate_b, crate_c] [0 \<mapsto> [], 1 \<mapsto> [0], 2 \<mapsto> [1, 0]]) 2
       = Inr ([''/repo/c'', ''/repo/a'', ''/repo/b'', ''/repo/a''], [''/repo/a/gen'', ''/repo/a/gen''])
   \<and> spec_include_dirs [crate_a, crate_b, crate_c] [1, 0] crate_c
       = [''/repo/c'', ''/repo/a'', ''/repo/b'', ''/repo/a'']
   \<and> spec_exclude_dirs [crate_a, crate_b, crate_c] [1, 0] crate_c
       = [''/repo/a/gen'', ''/repo/a/gen'']"
proof -
  have pos: "ids_are_positions [crate_a, crate_b, crate_c]"
    by (simp add: ids_are_positions_def crate_a_def crate_b_def crate_c_def example_crate_def)
  have mem: "crate_c \<in> set [crate_a, crate_b, crate_c]"
    by simp
  have rng: "\<forall>c\<in>set [crate_a, crate_b, crate_c].
      \<forall>d\<in>set (elems ([0 \<mapsto> [], 1 \<mapsto> [0], 2 \<mapsto> [1, 0]] (CrateId c))).
        unat d < length [crate_a, crate_b, crate_c]"
    by (simp add: crate_a_def crate_b_def crate_c_def example_crate_def elems_def)
  have inc: "spec_include_dirs [crate_a, crate_b, crate_c] [1, 0] crate_c
       = [''/repo/c'', ''/repo/a'', ''/repo/b'', ''/repo/a'']"
    by (simp add: spec_include_dirs_def find_crate_def crate_a_def crate_b_def crate_c_def
        example_crate_def elems_def)
  have exc: "spec_exclude_dirs [crate_a, crate_b, crate_c] [1, 0] crate_c
       = [''/repo/a/gen'', ''/repo/a/gen'']"
    by (simp add: spec_exclude_dirs_def find_crate_def crate_a_def crate_b_def crate_c_def
        example_crate_def elems_def)
  have k: "CrateId crate_c = 2"
    by (simp add: crate_c_def example_crate_def)
  have cl: "elems ([0 \<mapsto> [], 1 \<mapsto> [0], 2 \<mapsto> [1, 0]] (CrateId crate_c)) = [1, 0]"
    by (simp add: k elems_def)
  have "aggregated_dirs
          (getSourceDirs [crate_a, crate_b, crate_c] [0 \<mapsto> [], 1 \<mapsto> [0], 2 \<mapsto> [1, 0]])
          (CrateId crate_c)
        = Inr (spec_include_dirs [crate_a, crate_b, crate_c] [1, 0] crate_c,
               spec_exclude_dirs [crate_a, crate_b, crate_c] [1, 0] crate_c)"
    using getSourceDirs_aggregates_closure [OF pos mem rng] by (simp only: cl)
  then have "aggregated_dirs
          (getSourceDirs [crate_a, crate_b, crate_c] [0 \<mapsto> [], 1 \<mapsto> [0], 2 \<mapsto> [1, 0]]) 2
        = Inr ([''/repo/c'', ''/repo/a'', ''/repo/b'', ''/repo/a''],
               [''/repo/a/gen'', ''/repo/a/gen''])"
    by (simp only: k inc exc)
  with pos inc exc show ?thesis
    by blast
qed

text \<open>
  C7 as it is stated fails where a \<open>CrateId\<close> is not the position of its crate:
  \<open>getSourceDirs\<close> reads \<open>crates[dep]\<close>. With the crate 1 listed first and depending
  on the crate 0, the aggregated include directories of the crate 1 are its own twice, not
  its own followed by those of the crate 0.
\<close>

theorem getSourceDirs_by_position_counterexample:
  "aggregated_dirs (getSourceDirs swapped_crates [1 \<mapsto> [0], 0 \<mapsto> []]) 1
       \<noteq> Inr (spec_include_dirs swapped_crates [0] (swapped_crates ! 0),
                spec_exclude_dirs swapped_crates [0] (swapped_crates ! 0))
   \<and> aggregated_dirs (getSourceDirs swapped_crates [1 \<mapsto> [0], 0 \<mapsto> []]) 1
       = Inr ([''/repo/a'', ''/repo/a''], [])
   \<and> spec_include_dirs swapped_crates [0] (swapped_crates ! 0) = [''/repo/a'', ''/repo/b'']
   \<and> CrateId (swapped_crates ! 0) = 1
   \<and> getTransitiveDependencies id (swapped_crates ! 0) (build_crate_deps swapped_crates) = Some [0]"
  by (simp add: aggregated_dirs_def getSourceDirs_def swapped_crates_def example_crate_def
      spec_include_dirs_def spec_exclude_dirs_def find_crate_def elems_def getTransitiveDependencies_def
      build_crate_deps_def add_dep_def bfs_loop_Nil bfs_loop_Cons)

text \<open>
  C6. The manifest whose only crate has a dependency edge to the id 5, which no crate has:
  the closure is computed without error, and \<open>getSourceDirs\<close> then panics at
  \<open>crates[dep]\<close>, and so does the run of \<open>main\<close>.
\<close>

theorem dangling_edge_panics:
  "getTransitiveDependencies id (dangling_crates ! 0) (build_crate_deps dangling_crates) = Some [5]
   \<and> getSourceDirs dangling_crates [0 \<mapsto> [5]] = Inl (IndexOutOfRange 5 1)
   \<and> main example_env [''prog'', ''dangling.json'', ''/out.kzip'', ''/repo'']
       = Some \<lparr>outcome = Panic (IndexOutOfRange 5 1), events = [RemoveAll ''/out.kzip'']\<rparr>"
  by (simp add: getSourceDirs_def dangling_crates_def example_crate_def elems_def
      getTransitiveDependencies_def build_crate_deps_def add_dep_def bfs_loop_Nil bfs_loop_Cons
      main_def example_env_def Let_def)

lemma add_dep_other_key:
  "CrateId crate \<noteq> k \<Longrightarrow> foldl (add_dep crate) m ds k = m k"
  by (induction ds arbitrary: m) (simp_all add: add_dep_def)

lemma build_crate_deps_untouched:
  assumes "\<forall>c\<in>set cs. CrateId c = k \<longrightarrow> Deps c = []"
  shows "foldl (\<lambda>crate_deps crate. foldl (add_dep crate) crate_deps (Deps crate)) m cs k = m k"
  using assms
proof (induction cs arbitrary: m)
  case Nil
  then show ?case by simp
next
  case (Cons c cs)
  have "foldl (add_dep c) m (Deps c) k = m k"
  proof (cases "CrateId c = k")
    case True
    with Cons.prems have "Deps c = []" by simp
    then show ?thesis by simp
  next
    case False
    then show ?thesis by (rule add_dep_other_key)
  qed
  moreover have "foldl (\<lambda>crate_deps crate. foldl (add_dep crate) crate_deps (Deps crate))
                   (foldl (add_dep c) m (Deps c)) cs k = foldl (add_dep c) m (Deps c) k"
    using Cons.prems by (intro Cons.IH) simp
  ultimately show ?case
    by simp
qed

lemma getTransitiveDependencies_no_neighbours:
  assumes "is_range_order ro" and "elems (crate_deps (CrateId crate)) = []"
  shows "getTransitiveDependencies ro crate crate_deps = Some []"
proof -
  have "set (ro [CrateId crate]) = {CrateId crate}"
    using assms(1) by (simp add: is_range_order_def)
  then have "filter (\<lambda>k. k \<noteq> CrateId crate) (ro [CrateId crate]) = []"
    by (simp add: filter_empty_conv)
  then show ?thesis
    using assms(2) by (simp add: getTransitiveDependencies_def bfs_loop_Cons bfs_loop_Nil)
qed

lemma getTransitiveDependencies_same_id:
  "CrateId c = CrateId c' \<Longrightarrow>
     getTransitiveDependencies ro c crate_deps = getTransitiveDependencies ro c' crate_deps"
  by (simp add: getTransitiveDependencies_def split: option.splits)

lemma build_transitive_deps_entries:
  "\<exists>td. build_transitive_deps ro cs crate_deps m = Some td
      \<and> (\<forall>c\<in>set cs. td (CrateId c) = getTransitiveDependencies ro c crate_deps)
      \<and> (\<forall>k. k \<notin> CrateId ` set cs \<longrightarrow> td k = m k)"
proof (induction cs arbitrary: m)
  case Nil
  then show ?case by simp
next
  case (Cons c0 cs)
  obtain r where r: "getTransitiveDependencies ro c0 crate_deps = Some r"
    using getTransitiveDependencies_result [of crate_deps c0 ro] by blast
  from Cons.IH [of "m(CrateId c0 \<mapsto> r)"]
  obtain td where td: "build_transitive_deps ro cs crate_deps (m(CrateId c0 \<mapsto> r)) = Some td"
    and inside: "\<And>c. c \<in> set cs \<Longrightarrow> td (CrateId c) = getTransitiveDependencies ro c crate_deps"
    and outside: "\<And>k. k \<notin> CrateId ` set cs \<Longrightarrow> td k = (m(CrateId c0 \<mapsto> r)) k"
    by blast
  have "td (CrateId c0) = getTransitiveDependencies ro c0 crate_deps"
  proof (cases "CrateId c0 \<in> CrateId ` set cs")
    case True
    then obtain c where "c \<in> set cs" and "CrateId c0 = CrateId c"
      by blast
    then show ?thesis
      using inside [of c] getTransitiveDependencies_same_id [of c0 c ro crate_deps] by simp
  next
    case False
    then show ?thesis
      using outside [of "CrateId c0"] r by simp
  qed
  with inside have "\<forall>c\<in>set (c0 # cs). td (CrateId c) = getTransitiveDependencies ro c crate_deps"
    by simp
  moreover have "\<forall>k. k \<notin> CrateId ` set (c0 # cs) \<longrightarrow> td k = m k"
    using outside by simp
  ultimately show ?case
    using r td by simp
qed

lemma distinct_ids_same_crate:
  assumes "distinct (map CrateId crates)" and "c \<in> set crates" and "c' \<in> set crates"
    and "CrateId c = CrateId c'"
  shows "c = c'"
  using assms by (meson distinct_map inj_onD)

lemma own_dirs_if_returned:
  assumes "distinct (map CrateId crates)" and "crate \<in> set crates" and "Deps crate = []"
    and "is_range_order ro"
    and "build_transitive_deps ro crates (build_crate_deps crates) Map.empty = Some td"
    and "getSourceDirs crates td = Inr dirs"
  shows "getTransitiveDependencies ro crate (build_crate_deps crates) = Some []
       \<and> td (CrateId crate) = Some []
       \<and> aggregated_dirs (Inr dirs) (CrateId crate)
           = Inr (elems (IncludeDirs (Source crate)), ExcludeDirs (Source crate))"
proof -
  have "\<forall>c\<in>set crates. CrateId c = CrateId crate \<longrightarrow> Deps c = []"
    using assms(1-3) distinct_ids_same_crate by blast
  then have "build_crate_deps crates (CrateId crate) = None"
    unfolding build_crate_deps_def by (simp add: build_crate_deps_untouched)
  then have "elems (build_crate_deps crates (CrateId crate)) = []"
    by (simp add: elems_def)
  with assms(4) have closure: "getTransitiveDependencies ro crate (build_crate_deps crates) = Some []"
    by (rule getTransitiveDependencies_no_neighbours)
  have entry: "td (CrateId crate) = Some []"
    using build_transitive_deps_entries [of ro crates "build_crate_deps crates" Map.empty]
      assms(2,5) closure by auto
  obtain inc exc where dirs: "dirs = (inc, exc)"
    by (cases dirs)
  with assms(6) have run: "source_dirs_loop crates crates td (Map.empty, Map.empty) = Inr (inc, exc)"
    by (simp add: getSourceDirs_def)
  from source_dirs_loop_value [OF run assms(1), of crate] assms(2)
  have "inc (CrateId crate) = Some (elems (IncludeDirs (Source crate)))"
    and "exc (CrateId crate) = Some (ExcludeDirs (Source crate))"
    by (simp_all add: entry elems_def dep_include_dirs_def dep_exclude_dirs_def)
  then have "aggregated_dirs (Inr dirs) (CrateId crate)
           = Inr (elems (IncludeDirs (Source crate)), ExcludeDirs (Source crate))"
    by (simp add: aggregated_dirs_def dirs elems_def)
  with closure entry show ?thesis
    by simp
qed

lemma visit_deps_keys:
  "visit_deps ds (q, v) = (q', v') \<Longrightarrow> fst ` set v' \<subseteq> fst ` set v \<union> set ds"
proof (induction ds arbitrary: q v)
  case Nil
  then show ?case by simp
next
  case (Cons d ds)
  show ?case
  proof (cases "map_of v d = None")
    case True
    with Cons.prems have "visit_deps ds (q @ [d], AList.update d True v) = (q', v')"
      by simp
    from Cons.IH [OF this] show ?thesis
      by (auto simp: dom_update)
  next
    case False
    with Cons.prems have "visit_deps ds (q, v) = (q', v')"
      by auto
    from Cons.IH [OF this] show ?thesis
      by auto
  qed
qed

lemma bfs_loop_keys:
  assumes "\<forall>k. set (elems (crate_deps k)) \<subseteq> T"
  shows "bfs_loop crate_deps queue visited = Some r \<Longrightarrow> fst ` set r \<subseteq> fst ` set visited \<union> T"
proof (induction "2 * card (- fst ` set visited) + length queue"
    arbitrary: queue visited rule: less_induct)
  case less
  show ?case
  proof (cases queue)
    case Nil
    with less.prems show ?thesis
      by (simp add: bfs_loop_Nil)
  next
    case (Cons c rest)
    obtain q' v' where step: "visit_deps (elems (crate_deps c)) (rest, visited) = (q', v')"
      by (cases "visit_deps (elems (crate_deps c)) (rest, visited)")
    from visit_deps_measure [OF step]
    have m: "2 * card (- fst ` set v') + length q' < 2 * card (- fst ` set visited) + length queue"
      using Cons by simp
    have "bfs_loop crate_deps q' v' = Some r"
      using less.prems Cons step by (simp add: bfs_loop_Cons)
    with m have "fst ` set r \<subseteq> fst ` set v' \<union> T"
      by (rule less.hyps)
    moreover have "fst ` set v' \<subseteq> fst ` set visited \<union> set (elems (crate_deps c))"
      using step by (rule visit_deps_keys)
    moreover have "set (elems (crate_deps c)) \<subseteq> T"
      using assms by blast
    ultimately show ?thesis
      by blast
  qed
qed

lemma getTransitiveDependencies_within:
  assumes "\<forall>k. set (elems (crate_deps k)) \<subseteq> T" and "is_range_order ro"
    and "getTransitiveDependencies ro crate crate_deps = Some r"
  shows "set r \<subseteq> T"
proof -
  from getTransitiveDependencies_result [of crate_deps crate ro] assms(3)
  obtain visited where v: "bfs_loop crate_deps [CrateId crate] [(CrateId crate, True)] = Some visited"
    and r: "r = filter (\<lambda>k. k \<noteq> CrateId crate) (ro (map fst visited))"
    by auto
  from bfs_loop_keys [OF assms(1) v] have "fst ` set visited \<subseteq> {CrateId crate} \<union> T"
    by simp
  moreover have "set (ro (map fst visited)) = fst ` set visited"
    using assms(2) by (simp add: is_range_order_def)
  ultimately show ?thesis
    unfolding r by auto
qed

lemma add_dep_within:
  assumes "\<forall>k. set (elems (m k)) \<subseteq> T" and "dep_CrateId ` set ds \<subseteq> T"
  shows "\<forall>k. set (elems (foldl (add_dep crate) m ds k)) \<subseteq> T"
  using assms
proof (induction ds arbitrary: m)
  case Nil
  then show ?case by simp
next
  case (Cons d ds)
  have "\<forall>k. set (elems (add_dep crate m d k)) \<subseteq> T"
    using Cons.prems by (auto simp: add_dep_def elems_def split: option.splits)
  moreover have "dep_CrateId ` set ds \<subseteq> T"
    using Cons.prems by simp
  ultimately have "\<forall>k. set (elems (foldl (add_dep crate) (add_dep crate m d) ds k)) \<subseteq> T"
    by (rule Cons.IH)
  then show ?case
    by simp
qed

lemma build_crate_deps_within_loop:
  assumes "\<forall>k. set (elems (m k)) \<subseteq> T" and "\<forall>c\<in>set cs. dep_CrateId ` set (Deps c) \<subseteq> T"
  shows "\<forall>k. set (elems (foldl (\<lambda>crate_deps crate. foldl (add_dep crate) crate_deps (Deps crate))
                              m cs k)) \<subseteq> T"
  using assms
proof (induction cs arbitrary: m)
  case Nil
  then show ?case by simp
next
  case (Cons c cs)
  have "\<forall>k. set (elems (foldl (add_dep c) m (Deps c) k)) \<subseteq> T"
    using Cons.prems by (intro add_dep_within) simp_all
  moreover have "\<forall>c\<in>set cs. dep_CrateId ` set (Deps c) \<subseteq> T"
    using Cons.prems by simp
  ultimately have "\<forall>k. set (elems (foldl (\<lambda>crate_deps crate. foldl (add_dep crate) crate_deps (Deps crate))
                              (foldl (add_dep c) m (Deps c)) cs k)) \<subseteq> T"
    by (rule Cons.IH)
  then show ?case
    by simp
qed

lemma build_crate_deps_within: "set (elems (build_crate_deps crates k)) \<subseteq> edge_ids crates"
proof -
  have start: "\<forall>k. set (elems ((Map.empty :: uint32 \<rightharpoonup> uint32 list) k)) \<subseteq> edge_ids crates"
    by (simp add: elems_def)
  have edges: "\<forall>c\<in>set crates. dep_CrateId ` set (Deps c) \<subseteq> edge_ids crates"
  proof (intro ballI subsetI)
    fix c x
    assume "c \<in> set crates" and "x \<in> dep_CrateId ` set (Deps c)"
    then obtain d where "d \<in> set (Deps c)" and "x = dep_CrateId d"
      by blast
    with \<open>c \<in> set crates\<close> show "x \<in> edge_ids crates"
      unfolding edge_ids_def by blast
  qed
  have "\<forall>k. set (elems (build_crate_deps crates k)) \<subseteq> edge_ids crates"
    unfolding build_crate_deps_def by (rule build_crate_deps_within_loop [OF start edges])
  then show ?thesis
    by (rule spec)
qed

lemma closures_in_range:
  assumes "is_range_order ro"
    and "\<forall>c\<in>set crates. \<forall>d\<in>set (Deps c). unat (dep_CrateId d) < length crates"
    and "build_transitive_deps ro crates (build_crate_deps crates) Map.empty = Some td"
  shows "\<forall>c\<in>set crates. \<forall>d\<in>set (elems (td (CrateId c))). unat d < length crates"
proof (intro ballI)
  fix c d
  assume c: "c \<in> set crates" and d: "d \<in> set (elems (td (CrateId c)))"
  have "td (CrateId c) = getTransitiveDependencies ro c (build_crate_deps crates)"
    using build_transitive_deps_entries [of ro crates "build_crate_deps crates" Map.empty]
      assms(3) c by auto
  moreover obtain r where r: "getTransitiveDependencies ro c (build_crate_deps crates) = Some r"
    using getTransitiveDependencies_result [of "build_crate_deps crates" c ro] by blast
  ultimately have "d \<in> set r"
    using d by (simp add: elems_def)
  moreover have "set r \<subseteq> edge_ids crates"
    using build_crate_deps_within assms(1) r
    by (intro getTransitiveDependencies_within [of "build_crate_deps crates" _ ro c]) blast+
  ultimately have "d \<in> edge_ids crates"
    by blast
  then show "unat d < length crates"
    using assms(2) by (auto simp: edge_ids_def)
qed

text \<open>
  C8, as the code has it. In a manifest with unique crate ids in which every dependency
  edge names an id below the number of crates, a crate without declared dependency edges
  has the empty transitive closure, \<open>getSourceDirs\<close> returns, and the directories it
  returns for that crate are exactly the crate's own include and exclude directories.
\<close>

theorem no_dependencies_own_dirs:
  assumes "distinct (map CrateId crates)" and "crate \<in> set crates" and "Deps crate = []"
    and "is_range_order ro"
    and "\<forall>c\<in>set crates. \<forall>d\<in>set (Deps c). unat (dep_CrateId d) < length crates"
  shows "getTransitiveDependencies ro crate (build_crate_deps crates) = Some []
       \<and> (\<exists>td. build_transitive_deps ro crates (build_crate_deps crates) Map.empty = Some td
             \<and> td (CrateId crate) = Some []
             \<and> aggregated_dirs (getSourceDirs crates td) (CrateId crate)
                 = Inr (elems (IncludeDirs (Source crate)), ExcludeDirs (Source crate)))"
proof -
  obtain td where td: "build_transitive_deps ro crates (build_crate_deps crates) Map.empty = Some td"
    using build_transitive_deps_entries [of ro crates "build_crate_deps crates" Map.empty] by blast
  have "\<forall>c\<in>set crates. \<forall>d\<in>set (elems (td (CrateId c))). unat d < length crates"
    using assms(4,5) td by (rule closures_in_range)
  from source_dirs_loop_no_panic [OF this, of Map.empty Map.empty]
  obtain dirs where "source_dirs_loop crates crates td (Map.empty, Map.empty) = Inr dirs"
    by blast
  then have dirs: "getSourceDirs crates td = Inr dirs"
    by (simp only: getSourceDirs_def)
  from own_dirs_if_returned [OF assms(1-4) td dirs]
  have closure: "getTransitiveDependencies ro crate (build_crate_deps crates) = Some []"
    and entry: "td (CrateId crate) = Some []"
    and own: "aggregated_dirs (Inr dirs) (CrateId crate)
                = Inr (elems (IncludeDirs (Source crate)), ExcludeDirs (Source crate))"
    by simp_all
  from own have "aggregated_dirs (getSourceDirs crates td) (CrateId crate)
                = Inr (elems (IncludeDirs (Source crate)), ExcludeDirs (Source crate))"
    by (simp only: dirs)
  with td entry have "\<exists>td. build_transitive_deps ro crates (build_crate_deps crates) Map.empty = Some td
             \<and> td (CrateId crate) = Some []
             \<and> aggregated_dirs (getSourceDirs crates td) (CrateId crate)
                 = Inr (elems (IncludeDirs (Source crate)), ExcludeDirs (Source crate))"
    by (intro exI [of _ td] conjI)
  with closure show ?thesis
    by (rule conjI)
qed

theorem no_dependencies_own_dirs_witness:
  "distinct (map CrateId [crate_a, crate_b]) \<and> Deps crate_a = [] \<and> is_range_order id
   \<and> list_all (\<lambda>c. list_all (\<lambda>d. unat (dep_CrateId d) < length [crate_a, crate_b]) (Deps c))
        [crate_a, crate_b]
   \<and> getTransitiveDependencies id crate_a (build_crate_deps [crate_a, crate_b]) = Some []
   \<and> build_transitive_deps id [crate_a, crate_b] (build_crate_deps [crate_a, crate_b]) Map.empty
        = Some [0 \<mapsto> [], 1 \<mapsto> [0]]
   \<and> aggregated_dirs (getSourceDirs [crate_a, crate_b] [0 \<mapsto> [], 1 \<mapsto> [0]]) 0
        = Inr ([''/repo/a''], [''/repo/a/gen''])"
proof -
  have dist: "distinct (map CrateId [crate_a, crate_b])"
    by (simp add: crate_a_def crate_b_def example_crate_def)
  have mem: "crate_a \<in> set [crate_a, crate_b]"
    by simp
  have nodeps: "Deps crate_a = []"
    by (simp add: crate_a_def example_crate_def)
  have rng: "\<forall>c\<in>set [crate_a, crate_b]. \<forall>d\<in>set (Deps c).
          unat (dep_CrateId d) < length [crate_a, crate_b]"
    by (simp add: crate_a_def crate_b_def example_crate_def)
  have built: "build_transitive_deps id [crate_a, crate_b] (build_crate_deps [crate_a, crate_b]) Map.empty
        = Some [0 \<mapsto> [], 1 \<mapsto> [0]]"
    by (simp add: crate_a_def crate_b_def example_crate_def build_crate_deps_def add_dep_def
        getTransitiveDependencies_def bfs_loop_Nil bfs_loop_Cons elems_def)
  have k: "CrateId crate_a = 0" and own: "elems (IncludeDirs (Source crate_a)) = [''/repo/a'']"
    "ExcludeDirs (Source crate_a) = [''/repo/a/gen'']"
    by (simp_all add: crate_a_def example_crate_def elems_def)
  from no_dependencies_own_dirs [OF dist mem nodeps is_range_order_id rng]
  obtain td where closure: "getTransitiveDependencies id crate_a (build_crate_deps [crate_a, crate_b]) = Some []"
    and td: "build_transitive_deps id [crate_a, crate_b] (build_crate_deps [crate_a, crate_b]) Map.empty
               = Some td"
    and agg: "aggregated_dirs (getSourceDirs [crate_a, crate_b] td) (CrateId crate_a)
               = Inr (elems (IncludeDirs (Source crate_a)), ExcludeDirs (Source crate_a))"
    by blast
  from td have "Some td = Some [0 \<mapsto> [], 1 \<mapsto> [0]]"
    unfolding built by (rule sym)
  then have "td = [0 \<mapsto> [], 1 \<mapsto> [0]]"
    by (simp only: option.inject)
  with agg have "aggregated_dirs (getSourceDirs [crate_a, crate_b] [0 \<mapsto> [], 1 \<mapsto> [0]]) 0
        = Inr ([''/repo/a''], [''/repo/a/gen''])"
    by (simp only: k own)
  moreover from rng
  have "list_all (\<lambda>c. list_all (\<lambda>d. unat (dep_CrateId d) < length [crate_a, crate_b]) (Deps c))
          [crate_a, crate_b]"
    by (simp only: list_all_iff)
  ultimately show ?thesis
    using dist nodeps is_range_order_id closure built by (intro conjI)
qed

text \<open>
  C8 as it is stated fails where an edge names an id that is not a position:
  \<open>getSourceDirs\<close> panics at \<open>crates[dep]\<close> for the crate that has the edge, and no crate
  gets its directories. With the crates 20 and 10, unique ids and the only edge from 20 to
  10, the crate 10 has no dependencies and the empty closure, and the aggregation ends in
  a panic instead of returning the directories of the crate 10.
\<close>

theorem no_dependencies_counterexample:
  "distinct (map CrateId sparse_crates)
   \<and> Deps (sparse_crates ! 1) = []
   \<and> CrateId (sparse_crates ! 1) = 10
   \<and> getTransitiveDependencies id (sparse_crates ! 1) (build_crate_deps sparse_crates) = Some []
   \<and> build_transitive_deps id sparse_crates (build_crate_deps sparse_crates) Map.empty
        = Some [20 \<mapsto> [10], 10 \<mapsto> []]
   \<and> getSourceDirs sparse_crates [20 \<mapsto> [10], 10 \<mapsto> []] = Inl (IndexOutOfRange 10 2)
   \<and> aggregated_dirs (getSourceDirs sparse_crates [20 \<mapsto> [10], 10 \<mapsto> []]) 10
        \<noteq> Inr (elems (IncludeDirs (Source (sparse_crates ! 1))),
                 ExcludeDirs (Source (sparse_crates ! 1)))"
  by (simp add: sparse_crates_def example_crate_def build_crate_deps_def add_dep_def
      getTransitiveDependencies_def bfs_loop_Nil bfs_loop_Cons elems_def getSourceDirs_def
      aggregated_dirs_def)

section \<open>Properties of the file collector\<close>


lemma extends_by_refl: "extends_by projectRoot st [] st"
  by (simp add: extends_by_def)

lemma extends_by_trans:
  "extends_by projectRoot st cs st' \<Longrightarrow> extends_by projectRoot st' cs' st'' \<Longrightarrow>
     extends_by projectRoot st (cs @ cs') st''"
  by (simp add: extends_by_def)

lemma walk_fn_extends:
  assumes "walk_fn env exclude_dirs projectRoot v st = (r, st')"
  shows "\<exists>cands. extends_by projectRoot st cands st'
           \<and> (\<forall>c\<in>set cands. v = Entry (fst c) False \<and> passes exclude_dirs (fst c))"
proof (cases v)
  case (Failed p err)
  with assms have "st' = st"
    by (simp add: walk_fn_def)
  then show ?thesis
    using extends_by_refl [of projectRoot st] by (intro exI [of _ "[]"]) simp
next
  case (Entry p is_dir)
  show ?thesis
  proof (cases "is_dir \<or> list_ex (\<lambda>e. HasPrefix p e) exclude_dirs \<or> Ext p \<noteq> ''.rs''")
    case True
    with assms Entry have "st' = st"
      by (auto simp: walk_fn_def split: if_splits)
    then show ?thesis
      using extends_by_refl [of projectRoot st] by (intro exI [of _ "[]"]) simp
  next
    case False
    then have nodir: "\<not> is_dir" and ok: "passes exclude_dirs p"
      by (auto simp: passes_def HasPrefix_def list_ex_iff)
    show ?thesis
    proof (cases "vfs_open env p")
      case (Inl err)
      with assms Entry False have "st' = st"
        by (simp add: walk_fn_def)
      then show ?thesis
        using extends_by_refl [of projectRoot st] by (intro exI [of _ "[]"]) simp
    next
      case (Inr input)
      obtain res w where add: "kzip_add_file env (col_kzip_writer st) input = (res, w)"
        by (cases "kzip_add_file env (col_kzip_writer st) input")
      show ?thesis
      proof (cases res)
        case (Inl err)
        with assms Entry False Inr add have "st' = st\<lparr>col_kzip_writer := w\<rparr>"
          by (simp add: walk_fn_def)
        then have "extends_by projectRoot st [] st'"
          by (simp add: extends_by_def)
        then show ?thesis
          by (intro exI [of _ "[]"]) simp
      next
        case (Inr digest)
        with assms Entry False \<open>vfs_open env p = Inr input\<close> add
        have "extends_by projectRoot st [(p, digest)] st'"
          by (auto simp: walk_fn_def extends_by_def file_input_def Let_def)
        with Entry nodir ok show ?thesis
          by (intro exI [of _ "[(p, digest)]"]) simp
      qed
    qed
  qed
qed

lemma Walk_extends:
  assumes "Walk vs (walk_fn env exclude_dirs projectRoot) st = (r, st')"
  shows "\<exists>cands. extends_by projectRoot st cands st'
           \<and> (\<forall>c\<in>set cands. Entry (fst c) False \<in> set vs \<and> passes exclude_dirs (fst c))"
  using assms
proof (induction vs arbitrary: st)
  case Nil
  then have "st' = st" by simp
  then show ?case
    using extends_by_refl [of projectRoot st] by (intro exI [of _ "[]"]) simp
next
  case (Cons v vs)
  obtain r1 st1 where step: "walk_fn env exclude_dirs projectRoot v st = (r1, st1)"
    by (cases "walk_fn env exclude_dirs projectRoot v st")
  from walk_fn_extends [OF step] obtain cs1
    where e1: "extends_by projectRoot st cs1 st1"
      and p1: "\<forall>c\<in>set cs1. v = Entry (fst c) False \<and> passes exclude_dirs (fst c)"
    by blast
  show ?case
  proof (cases r1)
    case None
    with Cons.prems step have "Walk vs (walk_fn env exclude_dirs projectRoot) st1 = (r, st')"
      by simp
    from Cons.IH [OF this] obtain cs2
      where e2: "extends_by projectRoot st1 cs2 st'"
        and p2: "\<forall>c\<in>set cs2. Entry (fst c) False \<in> set vs \<and> passes exclude_dirs (fst c)"
      by blast
    from e1 e2 have "extends_by projectRoot st (cs1 @ cs2) st'"
      by (rule extends_by_trans)
    moreover from p1 p2
    have "\<forall>c\<in>set (cs1 @ cs2). Entry (fst c) False \<in> set (v # vs) \<and> passes exclude_dirs (fst c)"
      by auto
    ultimately show ?thesis
      by blast
  next
    case (Some err)
    with Cons.prems step have "st' = st1"
      by simp
    with e1 p1 show ?thesis
      by (intro exI [of _ cs1]) auto
  qed
qed

lemma collect_dirs_extends:
  "\<exists>cands. extends_by projectRoot st cands (collect_dirs env include_dirs exclude_dirs projectRoot st)
      \<and> (\<forall>c\<in>set cands. (\<exists>d\<in>set include_dirs. Entry (fst c) False \<in> set (vfs_walk env d))
                          \<and> passes exclude_dirs (fst c))"
proof (induction include_dirs arbitrary: st)
  case Nil
  show ?case
    using extends_by_refl [of projectRoot st] by (intro exI [of _ "[]"]) simp
next
  case (Cons d ds)
  obtain r st1 where w: "Walk (vfs_walk env d) (walk_fn env exclude_dirs projectRoot) st = (r, st1)"
    by (cases "Walk (vfs_walk env d) (walk_fn env exclude_dirs projectRoot) st")
  then have next_state: "collect_dirs env (d # ds) exclude_dirs projectRoot st
      = collect_dirs env ds exclude_dirs projectRoot st1"
    by (cases r) simp_all
  from Walk_extends [OF w] obtain cs1
    where e1: "extends_by projectRoot st cs1 st1"
      and p1: "\<forall>c\<in>set cs1. Entry (fst c) False \<in> set (vfs_walk env d) \<and> passes exclude_dirs (fst c)"
    by blast
  from Cons.IH [of st1] obtain cs2
    where e2: "extends_by projectRoot st1 cs2 (collect_dirs env ds exclude_dirs projectRoot st1)"
      and p2: "\<forall>c\<in>set cs2. (\<exists>d\<in>set ds. Entry (fst c) False \<in> set (vfs_walk env d))
                            \<and> passes exclude_dirs (fst c)"
    by blast
  from e1 e2 have "extends_by projectRoot st (cs1 @ cs2)
      (collect_dirs env (d # ds) exclude_dirs projectRoot st)"
    unfolding next_state by (rule extends_by_trans)
  moreover from p1 p2
  have "\<forall>c\<in>set (cs1 @ cs2). (\<exists>d'\<in>set (d # ds). Entry (fst c) False \<in> set (vfs_walk env d'))
                          \<and> passes exclude_dirs (fst c)"
    by auto
  ultimately show ?case
    by blast
qed

lemma example_collect_a:
  "getSourceFiles example_env crate_a [''/repo/a'', ''/nowhere''] [''/repo/a/ge''] ''/repo/'' [] []
     = (Inr [''a/lib.rs''], [file_input ''a/lib.rs'' ''sha:/repo/a/lib.rs''], [])"
  by (simp add: getSourceFiles_def example_env_def example_walk_def walk_fn_def HasPrefix_def
      Ext_def removeProjectRoot_def file_input_def Let_def)


text \<open>
  C3. Whatever a call of \<open>getSourceFiles\<close> returns and appends comes from a list of
  candidates, each with the path under which the walk of one of the include directories
  met it as a file and with its digest: the returned paths and the appended required
  inputs are those candidates, in order, with the project root removed from the path, and
  every candidate passes both filters on its walked path: no exclude directory is a
  prefix of it as a plain string, and its extension is exactly \<open>.rs\<close>. So a file that
  fails a filter is never collected.
\<close>

theorem getSourceFiles_collects_only_filtered:
  "\<exists>cands w'.
     getSourceFiles env crate include_dirs exclude_dirs projectRoot required_inputs w
       = (Inr (map (\<lambda>c. removeProjectRoot (fst c) projectRoot) cands),
          required_inputs @ map (\<lambda>c. file_input (removeProjectRoot (fst c) projectRoot) (snd c)) cands,
          w')
     \<and> (\<forall>c\<in>set cands.
           (\<exists>d\<in>set include_dirs. Entry (fst c) False \<in> set (vfs_walk env d))
           \<and> (\<forall>e\<in>set exclude_dirs. \<not> prefix e (fst c))
           \<and> Ext (fst c) = ''.rs'')"
proof -
  let ?st0 = "\<lparr>col_source_files = [], col_required_inputs = required_inputs, col_kzip_writer = w\<rparr>"
  from collect_dirs_extends [of projectRoot ?st0 env include_dirs exclude_dirs]
  obtain cands
    where e: "extends_by projectRoot ?st0 cands
                (collect_dirs env include_dirs exclude_dirs projectRoot ?st0)"
      and p: "\<forall>c\<in>set cands. (\<exists>d\<in>set include_dirs. Entry (fst c) False \<in> set (vfs_walk env d))
                              \<and> passes exclude_dirs (fst c)"
    by blast
  from e have "getSourceFiles env crate include_dirs exclude_dirs projectRoot required_inputs w
       = (Inr (map (\<lambda>c. removeProjectRoot (fst c) projectRoot) cands),
          required_inputs @ map (\<lambda>c. file_input (removeProjectRoot (fst c) projectRoot) (snd c)) cands,
          col_kzip_writer (collect_dirs env include_dirs exclude_dirs projectRoot ?st0))"
    by (simp add: getSourceFiles_def extends_by_def Let_def)
  with p show ?thesis
    unfolding passes_def by blast
qed

theorem getSourceFiles_collects_only_filtered_witness:
  "getSourceFiles example_env crate_a [''/repo/a'', ''/nowhere''] [''/repo/a/ge''] ''/repo/'' [] []
     = (Inr [''a/lib.rs''], [file_input ''a/lib.rs'' ''sha:/repo/a/lib.rs''], [])
   \<and> (\<exists>cands w'. cands \<noteq> []
        \<and> getSourceFiles example_env crate_a [''/repo/a'', ''/nowhere''] [''/repo/a/ge''] ''/repo/'' [] []
            = (Inr (map (\<lambda>c. removeProjectRoot (fst c) ''/repo/'') cands),
               [] @ map (\<lambda>c. file_input (removeProjectRoot (fst c) ''/repo/'') (snd c)) cands, w')
        \<and> (\<forall>c\<in>set cands.
              (\<exists>d\<in>set [''/repo/a'', ''/nowhere'']. Entry (fst c) False \<in> set (vfs_walk example_env d))
              \<and> (\<forall>e\<in>set [''/repo/a/ge'']. \<not> prefix e (fst c))
              \<and> Ext (fst c) = ''.rs''))"
proof -
  from getSourceFiles_collects_only_filtered
    [of example_env crate_a "[''/repo/a'', ''/nowhere'']" "[''/repo/a/ge'']" "''/repo/''" "[]" "[]"]
  obtain cands w'
    where run: "getSourceFiles example_env crate_a [''/repo/a'', ''/nowhere''] [''/repo/a/ge'']
                  ''/repo/'' [] []
            = (Inr (map (\<lambda>c. removeProjectRoot (fst c) ''/repo/'') cands),
               [] @ map (\<lambda>c. file_input (removeProjectRoot (fst c) ''/repo/'') (snd c)) cands, w')"
      and ok: "\<forall>c\<in>set cands.
              (\<exists>d\<in>set [''/repo/a'', ''/nowhere'']. Entry (fst c) False \<in> set (vfs_walk example_env d))
              \<and> (\<forall>e\<in>set [''/repo/a/ge'']. \<not> prefix e (fst c))
              \<and> Ext (fst c) = ''.rs''"
    by blast
  from run have "map (\<lambda>c. removeProjectRoot (fst c) ''/repo/'') cands = [''a/lib.rs'']"
    unfolding example_collect_a by simp
  then have "cands \<noteq> []"
    by auto
  with run ok example_collect_a show ?thesis
    by blast
qed




section \<open>Properties of the driver\<close>

text \<open>
  C10. When the project-root argument is the empty string, reading its last character
  panics with an index out of range: the run ends with that panic, not with exit code 1,
  before anything is removed or created.
\<close>

theorem main_empty_project_root_panics:
  assumes "length args \<ge> 4" and "args ! 3 = []"
  shows "main env args = Some \<lparr>outcome = Panic (IndexOutOfRange (- 1) 0), events = []\<rparr>"
  using assms by (simp add: main_def)

theorem main_empty_project_root_panics_witness:
  "length [''prog'', ''project.json'', ''/out.kzip'', []] \<ge> 4
   \<and> [''prog'', ''project.json'', ''/out.kzip'', []] ! 3 = []
   \<and> main example_env [''prog'', ''project.json'', ''/out.kzip'', []]
       = Some \<lparr>outcome = Panic (IndexOutOfRange (- 1) 0), events = []\<rparr>"
  using main_empty_project_root_panics
    [of "[''prog'', ''project.json'', ''/out.kzip'', []]" example_env]
  by simp

text \<open>
  C9. When the manifest is opened and decoded without error and holds no crate, printing
  the first crate panics with an index out of range: the run ends with that panic,
  neither with exit code 0 nor with exit code 1, and before the output is removed or
  created.
\<close>

theorem main_no_crates_panics:
  assumes "length args \<ge> 4" and "args ! 3 \<noteq> []"
    and "os_stat env (if args ! 3 ! (length (args ! 3) - 1) \<noteq> CHR ''/''
                      then args ! 3 @ ''/'' else args ! 3) = StatInfo True"
    and "os_open env (args ! 1) = Inr projectJSONFile"
    and "json_decode env projectJSONFile = Inr projectJSON"
    and "Crates projectJSON = []"
  shows "main env args = Some \<lparr>outcome = Panic (IndexOutOfRange 0 0), events = []\<rparr>"
  using assms by (simp add: main_def Let_def)

theorem main_no_crates_panics_witness:
  "os_stat example_env ''/repo/'' = StatInfo True
   \<and> os_open example_env ''empty.json'' = Inr ''empty.json''
   \<and> json_decode example_env ''empty.json'' = Inr \<lparr>Crates = []\<rparr>
   \<and> main example_env [''prog'', ''empty.json'', ''/out.kzip'', ''/repo'']
       = Some \<lparr>outcome = Panic (IndexOutOfRange 0 0), events = []\<rparr>"
  using main_no_crates_panics [of "[''prog'', ''empty.json'', ''/out.kzip'', ''/repo'']" example_env
      "''empty.json''" "\<lparr>Crates = []\<rparr>"]
  by (simp add: example_env_def)

end
